theory Spec2Isabelle
  imports Main
begin

section \<open>Alpha Miner: the discovery engine of Task2.py and Task3.py\<close>

text \<open>
  The class \<open>AlphaAlgorithm\<close> is defined twice, in Task2.py and in Task3.py, with the same
  code. It is embedded once. Activities are Python strings, relations are the strings
  \<open>''||''\<close>, \<open>''->''\<close>, \<open>''<-''\<close> and \<open>''#''\<close> the source stores in its dictionaries,
  a Python \<open>set\<close> or \<open>frozenset\<close> is a HOL set, a \<open>dict\<close> is a map, and an exception
  is the left injection of a sum.
\<close>

subsection \<open>Data\<close>

type_synonym activity = string
type_synonym trace = "activity list"
type_synonym pair = "activity set \<times> activity set"
type_synonym footprint = "activity \<rightharpoonup> (activity \<rightharpoonup> string)"

datatype py_error = IndexError | KeyError

record PetriNet =
  places :: "string set"
  transitions :: "string set"
  arcs :: "(string \<times> string) set"

record AlphaAlgorithm =
  event_log :: "trace list"
  unique_traces :: "trace \<rightharpoonup> nat"
  footprint_matrix :: footprint

text \<open>
  Python leaves the order in which a \<open>for\<close> loop visits a set open: it depends on the hashes
  of the elements, which for strings change from one interpreter run to the next. The order is
  a parameter of the model: \<open>walk_acts\<close> lists a set of activities, \<open>walk_pairs\<close> a set of
  pairs, in the order the run visits them. \<open>walks w S\<close> says that \<open>w\<close> lists \<open>S\<close>, each
  element once.
\<close>

record iteration =
  walk_acts :: "activity set \<Rightarrow> activity list"
  walk_pairs :: "pair set \<Rightarrow> pair list"

definition walks :: "('a set \<Rightarrow> 'a list) \<Rightarrow> 'a set \<Rightarrow> bool" where
  "walks w S \<longleftrightarrow> set (w S) = S \<and> distinct (w S)"

text \<open>\<open>walks_all it T\<close>: the run lists every set of activities taken from \<open>T\<close>. The
  sets of activities \<open>discover\<close> iterates are of this kind.\<close>

definition walks_all :: "iteration \<Rightarrow> activity set \<Rightarrow> bool" where
  "walks_all it T \<longleftrightarrow> (\<forall>S\<in>Pow T. walks (walk_acts it) S)"

subsection \<open>The constructor and \<open>_build_footprint_matrix\<close>\<close>

text \<open>\<open>Counter(tuple(trace) for trace in self.event_log)\<close>: the traces that occur, each with
  the number of its occurrences.\<close>

definition get_unique_traces :: "trace list \<Rightarrow> (trace \<rightharpoonup> nat)" where
  "get_unique_traces log = (\<lambda>t. if t \<in> set log then Some (count_list log t) else None)"

text \<open>\<open>for i in range(len(trace) - 1): direct_succession[trace[i]].add(trace[i + 1])\<close>, on a
  \<open>defaultdict(set)\<close>: a key that is read and absent is created with the empty set.\<close>

fun record_trace :: "trace \<Rightarrow> (activity \<rightharpoonup> activity set) \<Rightarrow> (activity \<rightharpoonup> activity set)" where
  "record_trace (x # y # tr) ds =
     record_trace (y # tr) (ds(x \<mapsto> insert y (case ds x of None \<Rightarrow> {} | Some s \<Rightarrow> s)))"
| "record_trace tr ds = ds"

text \<open>The first loop of \<open>_build_footprint_matrix\<close>, over the traces of the log: it fills
  \<open>direct_succession\<close> and \<open>activities\<close>.\<close>

definition scan_log :: "trace list \<Rightarrow> (activity \<rightharpoonup> activity set) \<times> activity set" where
  "scan_log log =
     fold (\<lambda>trace (ds, acts). (record_trace trace ds, acts \<union> set trace)) log (Map.empty, {})"

text \<open>\<open>a1 in direct_succession and a2 in direct_succession[a1]\<close>. The \<open>and\<close> reads
  \<open>direct_succession[a1]\<close> only when the key is there, so the test creates no key.\<close>

definition follows :: "(activity \<rightharpoonup> activity set) \<Rightarrow> activity \<Rightarrow> activity \<Rightarrow> bool" where
  "follows ds a1 a2 = (case ds a1 of None \<Rightarrow> False | Some s \<Rightarrow> a2 \<in> s)"

text \<open>The \<open>if\<close>/\<open>elif\<close>/\<open>else\<close> of the second loop.\<close>

definition relation :: "(activity \<rightharpoonup> activity set) \<Rightarrow> activity \<Rightarrow> activity \<Rightarrow> string" where
  "relation ds a1 a2 =
     (if follows ds a1 a2 then
        (if follows ds a2 a1 then ''||'' else ''->'')
      else if follows ds a2 a1 then ''<-''
      else ''#'')"

definition build_footprint_matrix :: "iteration \<Rightarrow> trace list \<Rightarrow> footprint" where
  "build_footprint_matrix it log =
     (case scan_log log of (direct_succession, activities) \<Rightarrow>
        fold (\<lambda>a1 fm.
                fm(a1 \<mapsto> fold (\<lambda>a2 row. row(a2 \<mapsto> relation direct_succession a1 a2))
                               (walk_acts it activities) Map.empty))
             (walk_acts it activities) Map.empty)"

definition init :: "iteration \<Rightarrow> trace list \<Rightarrow> AlphaAlgorithm" where
  "init it log =
     \<lparr>event_log = log,
      unique_traces = get_unique_traces log,
      footprint_matrix = build_footprint_matrix it log\<rparr>"

subsection \<open>\<open>_check_conditions\<close>\<close>

text \<open>\<open>self.footprint_matrix[a1][a2]\<close>: two dictionary reads, each raising \<open>KeyError\<close> on
  a missing key.\<close>

definition fm_get :: "footprint \<Rightarrow> activity \<Rightarrow> activity \<Rightarrow> py_error + string" where
  "fm_get fm a1 a2 =
     (case fm a1 of
        None \<Rightarrow> Inl KeyError
      | Some row \<Rightarrow> (case row a2 of None \<Rightarrow> Inl KeyError | Some r \<Rightarrow> Inr r))"

text \<open>One of the three loops: \<open>for x, y in ps: if self.footprint_matrix[x][y] != r: return False\<close>.
  The result \<open>Inr True\<close> stands for the loop running to its end.\<close>

fun all_related :: "footprint \<Rightarrow> string \<Rightarrow> (activity \<times> activity) list \<Rightarrow> py_error + bool" where
  "all_related fm r [] = Inr True"
| "all_related fm r ((x, y) # ps) =
     (case fm_get fm x y of
        Inl e \<Rightarrow> Inl e
      | Inr v \<Rightarrow> if v \<noteq> r then Inr False else all_related fm r ps)"

definition check_conditions :: "iteration \<Rightarrow> footprint \<Rightarrow> activity set \<Rightarrow> activity set \<Rightarrow> py_error + bool" where
  "check_conditions it fm A B =
     (case all_related fm ''#'' (List.product (walk_acts it A) (walk_acts it A)) of
        Inl e \<Rightarrow> Inl e
      | Inr False \<Rightarrow> Inr False
      | Inr True \<Rightarrow>
     (case all_related fm ''#'' (List.product (walk_acts it B) (walk_acts it B)) of
        Inl e \<Rightarrow> Inl e
      | Inr False \<Rightarrow> Inr False
      | Inr True \<Rightarrow> all_related fm ''->'' (List.product (walk_acts it A) (walk_acts it B))))"

subsection \<open>\<open>_find_maximal_pairs\<close>\<close>

text \<open>The inner loop, with its \<open>continue\<close> and its \<open>break\<close>; the value is \<open>is_maximal\<close>
  when the loop is left.\<close>

fun is_maximal :: "pair \<Rightarrow> pair list \<Rightarrow> bool" where
  "is_maximal pair1 [] = True"
| "is_maximal pair1 (pair2 # ps) =
     (if pair1 = pair2 then is_maximal pair1 ps
      else if fst pair1 \<subseteq> fst pair2 \<and> snd pair1 \<subseteq> snd pair2 then False
      else is_maximal pair1 ps)"

definition find_maximal_pairs :: "iteration \<Rightarrow> pair set \<Rightarrow> pair set" where
  "find_maximal_pairs it X =
     fold (\<lambda>pair1 Y. if is_maximal pair1 (walk_pairs it X) then insert pair1 Y else Y)
          (walk_pairs it X) {}"

subsection \<open>\<open>discover\<close>\<close>

text \<open>\<open>itertools.combinations(xs, r)\<close>: the subsequences of length \<open>r\<close>, in the order of
  the positions.\<close>

fun combinations :: "'a list \<Rightarrow> nat \<Rightarrow> 'a list list" where
  "combinations xs 0 = [[]]"
| "combinations [] (Suc r) = []"
| "combinations (x # xs) (Suc r) = map ((#) x) (combinations xs r) @ combinations xs (Suc r)"

text \<open>\<open>set(trace[0] for trace in self.event_log)\<close> and \<open>set(trace[-1] for ...)\<close>: indexing
  an empty trace raises \<open>IndexError\<close>.\<close>

fun first_activities :: "trace list \<Rightarrow> py_error + activity set" where
  "first_activities [] = Inr {}"
| "first_activities ([] # log) = Inl IndexError"
| "first_activities ((x # tr) # log) =
     (case first_activities log of Inl e \<Rightarrow> Inl e | Inr S \<Rightarrow> Inr (insert x S))"

fun last_activities :: "trace list \<Rightarrow> py_error + activity set" where
  "last_activities [] = Inr {}"
| "last_activities ([] # log) = Inl IndexError"
| "last_activities ((x # tr) # log) =
     (case last_activities log of Inl e \<Rightarrow> Inl e | Inr S \<Rightarrow> Inr (insert (last (x # tr)) S))"

text \<open>Step 4. The four nested loops visit the pairs of tuples in the order of
  \<open>candidates\<close>; \<open>collect_pairs\<close> is the body, adding to \<open>X\<close>.\<close>

definition candidates :: "activity list \<Rightarrow> nat \<Rightarrow> (activity list \<times> activity list) list" where
  "candidates ts n =
     [(A, B). size_a \<leftarrow> [1..<n + 1], size_b \<leftarrow> [1..<n + 1],
              A \<leftarrow> combinations ts size_a, B \<leftarrow> combinations ts size_b]"

fun collect_pairs ::
  "iteration \<Rightarrow> footprint \<Rightarrow> (activity list \<times> activity list) list \<Rightarrow> pair set \<Rightarrow> py_error + pair set" where
  "collect_pairs it fm [] X = Inr X"
| "collect_pairs it fm ((A, B) # cs) X =
     (case check_conditions it fm (set A) (set B) of
        Inl e \<Rightarrow> Inl e
      | Inr ok \<Rightarrow> collect_pairs it fm cs (if ok then insert (set A, set B) X else X))"

definition candidate_pairs :: "iteration \<Rightarrow> footprint \<Rightarrow> activity set \<Rightarrow> py_error + pair set" where
  "candidate_pairs it fm T = collect_pairs it fm (candidates (walk_acts it T) (card T)) {}"

text \<open>\<open>str(i)\<close> for a natural number, and the f-string \<open>f"p_{i}"\<close>.\<close>

fun str :: "nat \<Rightarrow> string" where
  "str n = (if n < 10 then [char_of (48 + n)] else str (n div 10) @ [char_of (48 + n mod 10)])"

declare str.simps [simp del]

definition place_name :: "nat \<Rightarrow> string" where
  "place_name i = ''p_'' @ str i"

text \<open>Step 7, the loop over \<open>enumerate(YL)\<close>.\<close>

definition place_arcs :: "iteration \<Rightarrow> nat \<times> pair \<Rightarrow> (string \<times> string) set \<Rightarrow> (string \<times> string) set" where
  "place_arcs it = (\<lambda>(i, (A, B)) arcs.
     fold (\<lambda>b. insert (place_name i, b)) (walk_acts it B)
       (fold (\<lambda>a. insert (a, place_name i)) (walk_acts it A) arcs))"

definition discover :: "iteration \<Rightarrow> AlphaAlgorithm \<Rightarrow> py_error + PetriNet" where
  "discover it self =
     (let T = set (concat (event_log self)) in
      (case first_activities (event_log self) of
         Inl e \<Rightarrow> Inl e
       | Inr TI \<Rightarrow>
      (case last_activities (event_log self) of
         Inl e \<Rightarrow> Inl e
       | Inr TO \<Rightarrow>
      (case candidate_pairs it (footprint_matrix self) T of
         Inl e \<Rightarrow> Inl e
       | Inr X \<Rightarrow>
      (let YL = find_maximal_pairs it X;
           places = insert ''end'' (insert ''start'' (place_name ` set [0..<card YL]));
           arcs = fold (\<lambda>t. insert (''start'', t)) (walk_acts it TI) {};
           arcs = fold (\<lambda>t. insert (t, ''end'')) (walk_acts it TO) arcs;
           arcs = fold (place_arcs it) (enumerate 0 (walk_pairs it YL)) arcs
       in Inr \<lparr>places = places, transitions = T, arcs = arcs\<rparr>)))))"

subsection \<open>The notions of the specification\<close>

text \<open>"Activity b occurs immediately after activity a within some trace."\<close>

definition directly_follows :: "trace list \<Rightarrow> activity \<Rightarrow> activity \<Rightarrow> bool" where
  "directly_follows log a b \<longleftrightarrow> (\<exists>tr\<in>set log. (a, b) \<in> set (zip tr (tl tr)))"

text \<open>CandidatePair: "a pair (A, B) of non-empty activity subsets satisfying: all pairs within
  A are CHOICE, all pairs within B are CHOICE, every (a\<in>A, b\<in>B) pair is CAUSALITY", the
  relations being read from the footprint matrix.\<close>

definition CandidatePair :: "footprint \<Rightarrow> activity set \<Rightarrow> pair \<Rightarrow> bool" where
  "CandidatePair fm T p \<longleftrightarrow>
     fst p \<noteq> {} \<and> snd p \<noteq> {} \<and> fst p \<subseteq> T \<and> snd p \<subseteq> T \<and>
     (\<forall>a1\<in>fst p. \<forall>a2\<in>fst p. fm_get fm a1 a2 = Inr ''#'') \<and>
     (\<forall>b1\<in>snd p. \<forall>b2\<in>snd p. fm_get fm b1 b2 = Inr ''#'') \<and>
     (\<forall>a\<in>fst p. \<forall>b\<in>snd p. fm_get fm a b = Inr ''->'')"

text \<open>"The full collection of such pairs is X."\<close>

definition spec_X :: "footprint \<Rightarrow> activity set \<Rightarrow> pair set" where
  "spec_X fm T = Set.filter (CandidatePair fm T) ((Pow T - {{}}) \<times> (Pow T - {{}}))"

text \<open>"Another distinct pair p' = (A', B') with A \<subseteq> A' and B \<subseteq> B' simultaneously."\<close>

definition dominated :: "pair \<Rightarrow> pair \<Rightarrow> bool" where
  "dominated p p' \<longleftrightarrow> p' \<noteq> p \<and> fst p \<subseteq> fst p' \<and> snd p \<subseteq> snd p'"

text \<open>MaximalPair: "an element of X not componentwise-dominated by any other distinct element
  of X"; Y is the set of maximal pairs.\<close>

definition spec_Y :: "pair set \<Rightarrow> pair set" where
  "spec_Y X = Set.filter (\<lambda>p. \<not> (\<exists>p'\<in>X. dominated p p')) X"

text \<open>The arcs of the place \<open>p_i\<close> of a pair (A, B): "a\<rightarrow>p for a\<in>A, p\<rightarrow>b for b\<in>B".\<close>

definition pair_arcs :: "nat \<Rightarrow> pair \<Rightarrow> (string \<times> string) set" where
  "pair_arcs i p = (\<lambda>a. (a, place_name i)) ` fst p \<union> (\<lambda>b. (place_name i, b)) ` snd p"

text \<open>"No place-place or transition-transition arcs exist."\<close>

definition bipartite :: "PetriNet \<Rightarrow> bool" where
  "bipartite net \<longleftrightarrow>
     (\<forall>(s, t)\<in>arcs net.
        \<not> (s \<in> places net \<and> t \<in> places net) \<and>
        \<not> (s \<in> transitions net \<and> t \<in> transitions net))"

subsection \<open>Iteration orders for examples\<close>

text \<open>A run that visits the elements of a set in the order of a fixed list.\<close>

definition walk_in_order :: "'a list \<Rightarrow> 'a set \<Rightarrow> 'a list" where
  "walk_in_order xs S = filter (\<lambda>x. x \<in> S) xs"

definition run_order :: "activity list \<Rightarrow> pair list \<Rightarrow> iteration" where
  "run_order as ps = \<lparr>walk_acts = walk_in_order as, walk_pairs = walk_in_order ps\<rparr>"

text \<open>An example: the log of the single trace a, b, c, whose candidate pairs are
  ({a}, {b}) and ({b}, {c}), both maximal, and two runs that iterate sets of pairs in
  opposite orders.\<close>

definition log_abc :: "trace list" where
  "log_abc = [[''a'', ''b'', ''c'']]"

definition run_abc :: iteration where
  "run_abc = run_order [''a'', ''b'', ''c''] [({''a''}, {''b''}), ({''b''}, {''c''})]"

definition run_cba :: iteration where
  "run_cba = run_order [''c'', ''b'', ''a''] [({''b''}, {''c''}), ({''a''}, {''b''})]"

section \<open>The footprint matrix\<close>

lemma follows_update:
  "follows (ds(x \<mapsto> insert y (case ds x of None \<Rightarrow> {} | Some s \<Rightarrow> s))) a b
     \<longleftrightarrow> follows ds a b \<or> (a = x \<and> b = y)"
  by (auto simp: follows_def split: option.splits)

lemma follows_record_trace:
  "follows (record_trace tr ds) a b \<longleftrightarrow> follows ds a b \<or> (a, b) \<in> set (zip tr (tl tr))"
proof (induction tr ds rule: record_trace.induct)
  case (1 x y tr ds)
  let ?ds = "ds(x \<mapsto> insert y (case ds x of None \<Rightarrow> {} | Some s \<Rightarrow> s))"
  have "follows (record_trace (x # y # tr) ds) a b \<longleftrightarrow> follows (record_trace (y # tr) ?ds) a b"
    by simp
  also have "\<dots> \<longleftrightarrow> follows ?ds a b \<or> (a, b) \<in> set (zip (y # tr) (tl (y # tr)))"
    by (rule "1.IH")
  also have "follows ?ds a b \<longleftrightarrow> follows ds a b \<or> (a = x \<and> b = y)"
    by (rule follows_update)
  finally show ?case by auto
qed simp_all

lemma scan_log_fold:
  "fold (\<lambda>trace (ds, acts). (record_trace trace ds, acts \<union> set trace)) log (ds0, acts0) = (ds1, acts1)
   \<Longrightarrow> acts1 = acts0 \<union> set (concat log) \<and>
       (\<forall>a b. follows ds1 a b \<longleftrightarrow> follows ds0 a b \<or> directly_follows log a b)"
proof (induction log arbitrary: ds0 acts0)
  case Nil
  then show ?case by (simp add: directly_follows_def)
next
  case (Cons tr log)
  from Cons.prems have
    "fold (\<lambda>trace (ds, acts). (record_trace trace ds, acts \<union> set trace)) log
       (record_trace tr ds0, acts0 \<union> set tr) = (ds1, acts1)" by simp
  from Cons.IH [OF this] show ?case
    by (auto simp: follows_record_trace directly_follows_def)
qed

lemma scan_log_activities: "snd (scan_log log) = set (concat log)"
  using scan_log_fold [of log Map.empty "{}" "fst (scan_log log)" "snd (scan_log log)"]
  by (simp add: scan_log_def)

lemma scan_log_follows: "follows (fst (scan_log log)) a b \<longleftrightarrow> directly_follows log a b"
  using scan_log_fold [of log Map.empty "{}" "fst (scan_log log)" "snd (scan_log log)"]
  by (simp add: scan_log_def follows_def)

lemma fold_map_upd:
  "fold (\<lambda>a m. m(a \<mapsto> f a)) xs m0 = (\<lambda>a. if a \<in> set xs then Some (f a) else m0 a)"
  by (induction xs arbitrary: m0) (auto simp: fun_eq_iff)

lemma fm_get_built:
  assumes "set (walk_acts it (set (concat log))) = set (concat log)"
  shows "fm_get (build_footprint_matrix it log) a b =
           (if a \<in> set (concat log) \<and> b \<in> set (concat log)
            then Inr (relation (fst (scan_log log)) a b) else Inl KeyError)"
proof -
  obtain ds acts where s: "scan_log log = (ds, acts)" by (cases "scan_log log")
  with scan_log_activities [of log] have acts: "acts = set (concat log)" by simp
  show ?thesis
    using assms by (simp add: build_footprint_matrix_def s acts fold_map_upd fm_get_def)
qed

section \<open>Candidate pairs\<close>

lemma all_related_total:
  "\<forall>(x, y)\<in>set ps. \<exists>v. fm_get fm x y = Inr v \<Longrightarrow>
   all_related fm r ps = Inr (\<forall>(x, y)\<in>set ps. fm_get fm x y = Inr r)"
  by (induction ps) auto

lemma check_conditions_total:
  assumes A: "set (walk_acts it A) = A" and B: "set (walk_acts it B) = B"
    and tot: "\<forall>x\<in>A \<union> B. \<forall>y\<in>A \<union> B. \<exists>v. fm_get fm x y = Inr v"
  shows "check_conditions it fm A B =
           Inr ((\<forall>a1\<in>A. \<forall>a2\<in>A. fm_get fm a1 a2 = Inr ''#'') \<and>
                (\<forall>b1\<in>B. \<forall>b2\<in>B. fm_get fm b1 b2 = Inr ''#'') \<and>
                (\<forall>a\<in>A. \<forall>b\<in>B. fm_get fm a b = Inr ''->''))"
proof -
  have 1: "all_related fm r (List.product (walk_acts it A) (walk_acts it A)) =
             Inr (\<forall>a1\<in>A. \<forall>a2\<in>A. fm_get fm a1 a2 = Inr r)" for r
    using tot by (subst all_related_total) (auto simp: A)
  have 2: "all_related fm r (List.product (walk_acts it B) (walk_acts it B)) =
             Inr (\<forall>a1\<in>B. \<forall>a2\<in>B. fm_get fm a1 a2 = Inr r)" for r
    using tot by (subst all_related_total) (auto simp: B)
  have 3: "all_related fm r (List.product (walk_acts it A) (walk_acts it B)) =
             Inr (\<forall>a1\<in>A. \<forall>a2\<in>B. fm_get fm a1 a2 = Inr r)" for r
    using tot by (subst all_related_total) (auto simp: A B)
  show ?thesis
    unfolding check_conditions_def 1 2 3 by (simp split: bool.split)
qed

lemma combinations_length: "ys \<in> set (combinations xs k) \<Longrightarrow> length ys = k"
  by (induction xs k arbitrary: ys rule: combinations.induct) auto

lemma combinations_subset: "ys \<in> set (combinations xs k) \<Longrightarrow> set ys \<subseteq> set xs"
  by (induction xs k arbitrary: ys rule: combinations.induct) fastforce+

lemma combinations_Cons: "ys \<in> set (combinations xs k) \<Longrightarrow> ys \<in> set (combinations (a # xs) k)"
  by (cases k) auto

lemma filter_in_combinations: "filter P xs \<in> set (combinations xs (length (filter P xs)))"
  by (induction xs) (auto intro: combinations_Cons)

lemma set_sized_pairs:
  "(A, B) \<in> set [(A, B). size_a \<leftarrow> ns, size_b \<leftarrow> ns,
                          A \<leftarrow> combinations ts size_a, B \<leftarrow> combinations ts size_b] \<longleftrightarrow>
     (\<exists>i\<in>set ns. A \<in> set (combinations ts i)) \<and> (\<exists>j\<in>set ns. B \<in> set (combinations ts j))"
  by auto

lemma set_candidates:
  "(A, B) \<in> set (candidates ts n) \<longleftrightarrow>
     (\<exists>i\<in>{1..n}. A \<in> set (combinations ts i)) \<and> (\<exists>j\<in>{1..n}. B \<in> set (combinations ts j))"
proof -
  have "set [1..<n + 1] = {1..n}" by auto
  then show ?thesis
    unfolding candidates_def set_sized_pairs by simp
qed

lemma nonempty_subset_combination:
  assumes "S \<subseteq> set ts" "S \<noteq> {}"
  shows "\<exists>i\<in>{1..length ts}. \<exists>A\<in>set (combinations ts i). set A = S"
proof -
  let ?A = "filter (\<lambda>x. x \<in> S) ts"
  have s: "set ?A = S" using assms by auto
  with assms(2) have "?A \<noteq> []" by (metis set_empty)
  then have "1 \<le> length ?A" by (cases ?A) auto
  moreover have "length ?A \<le> length ts" by simp
  ultimately show ?thesis using filter_in_combinations [of "\<lambda>x. x \<in> S" ts] s
    by (intro bexI [of _ "length ?A"] bexI [of _ ?A]) auto
qed

lemma candidates_sets:
  "(\<lambda>(A, B). (set A, set B)) ` set (candidates ts (length ts)) =
     (Pow (set ts) - {{}}) \<times> (Pow (set ts) - {{}})" (is "?L = ?R")
proof (rule set_eqI)
  fix p :: pair
  obtain S U where p: "p = (S, U)" by (cases p)
  show "p \<in> ?L \<longleftrightarrow> p \<in> ?R"
  proof
    assume "p \<in> ?L"
    then obtain A B i j where "S = set A" "U = set B" "1 \<le> i" "1 \<le> j"
      "A \<in> set (combinations ts i)" "B \<in> set (combinations ts j)"
      by (auto simp: p set_candidates)
    with combinations_length [of A ts i] combinations_length [of B ts j]
      combinations_subset [of A ts i] combinations_subset [of B ts j]
    show "p \<in> ?R" by (auto simp: p)
  next
    assume "p \<in> ?R"
    then have "S \<subseteq> set ts" "S \<noteq> {}" "U \<subseteq> set ts" "U \<noteq> {}" by (auto simp: p)
    from nonempty_subset_combination [OF this(1,2)] nonempty_subset_combination [OF this(3,4)]
    obtain i A j B where "i \<in> {1..length ts}" "A \<in> set (combinations ts i)" "set A = S"
       "j \<in> {1..length ts}" "B \<in> set (combinations ts j)" "set B = U" by blast
    then have "(A, B) \<in> set (candidates ts (length ts))" by (auto simp: set_candidates)
    then have "(\<lambda>(A, B). (set A, set B)) (A, B) \<in> ?L" by (rule imageI)
    then show "p \<in> ?L" using \<open>set A = S\<close> \<open>set B = U\<close> by (simp add: p)
  qed
qed

lemma collect_pairs_total:
  "\<forall>(A, B)\<in>set cs. \<exists>ok. check_conditions it fm (set A) (set B) = Inr ok \<Longrightarrow>
   collect_pairs it fm cs X =
     Inr (X \<union> {p \<in> (\<lambda>(A, B). (set A, set B)) ` set cs.
                 check_conditions it fm (fst p) (snd p) = Inr True})"
proof (induction cs arbitrary: X)
  case Nil
  then show ?case by simp
next
  case (Cons c cs)
  obtain A B where c: "c = (A, B)" by (cases c)
  from Cons.prems obtain ok where ok: "check_conditions it fm (set A) (set B) = Inr ok"
    by (auto simp: c)
  from Cons.prems have "\<forall>(A, B)\<in>set cs. \<exists>ok. check_conditions it fm (set A) (set B) = Inr ok"
    by simp
  from Cons.IH [OF this] show ?case
    by (cases ok) (auto simp: c ok)
qed

lemma candidate_pairs_total:
  assumes walk: "walks_all it T"
    and tot: "\<forall>x\<in>T. \<forall>y\<in>T. \<exists>v. fm_get fm x y = Inr v"
  shows "candidate_pairs it fm T = Inr (spec_X fm T)"
proof -
  let ?ts = "walk_acts it T"
  from walk have ts: "set ?ts = T" "distinct ?ts" by (auto simp: walks_def walks_all_def)
  have n: "card T = length ?ts" using distinct_card [OF ts(2)] by (simp only: ts(1))
  have img: "(\<lambda>(A, B). (set A, set B)) ` set (candidates ?ts (card T)) =
               (Pow T - {{}}) \<times> (Pow T - {{}})"
    using candidates_sets [of ?ts] by (simp only: ts n)
  have chk: "check_conditions it fm A B = Inr (CandidatePair fm T (A, B))"
    if "A \<subseteq> T" "B \<subseteq> T" "A \<noteq> {}" "B \<noteq> {}" for A B
  proof -
    have "check_conditions it fm A B =
           Inr ((\<forall>a1\<in>A. \<forall>a2\<in>A. fm_get fm a1 a2 = Inr ''#'') \<and>
                (\<forall>b1\<in>B. \<forall>b2\<in>B. fm_get fm b1 b2 = Inr ''#'') \<and>
                (\<forall>a\<in>A. \<forall>b\<in>B. fm_get fm a b = Inr ''->''))"
    proof (rule check_conditions_total)
      show "set (walk_acts it A) = A" using walk that(1) by (simp add: walks_def walks_all_def)
      show "set (walk_acts it B) = B" using walk that(2) by (simp add: walks_def walks_all_def)
      show "\<forall>x\<in>A \<union> B. \<forall>y\<in>A \<union> B. \<exists>v. fm_get fm x y = Inr v"
        using tot that(1,2) by blast
    qed
    then show ?thesis using that by (simp add: CandidatePair_def)
  qed
  have chk': "check_conditions it fm (fst p) (snd p) = Inr (CandidatePair fm T p)"
    if "p \<in> (Pow T - {{}}) \<times> (Pow T - {{}})" for p
    using that chk [of "fst p" "snd p"] by (cases p) simp
  have "\<forall>(A, B)\<in>set (candidates ?ts (card T)). \<exists>ok. check_conditions it fm (set A) (set B) = Inr ok"
  proof (clarify)
    fix A B assume "(A, B) \<in> set (candidates ?ts (card T))"
    then have "(\<lambda>(A, B). (set A, set B)) (A, B) \<in> (Pow T - {{}}) \<times> (Pow T - {{}})"
      unfolding img [symmetric] by (rule imageI)
    from chk' [OF this] show "\<exists>ok. check_conditions it fm (set A) (set B) = Inr ok" by simp
  qed
  from collect_pairs_total [OF this, of "{}"]
  have "candidate_pairs it fm T =
          Inr {p \<in> (Pow T - {{}}) \<times> (Pow T - {{}}). check_conditions it fm (fst p) (snd p) = Inr True}"
    by (simp only: candidate_pairs_def img Un_empty_left)
  also have "{p \<in> (Pow T - {{}}) \<times> (Pow T - {{}}). check_conditions it fm (fst p) (snd p) = Inr True}
               = {p \<in> (Pow T - {{}}) \<times> (Pow T - {{}}). CandidatePair fm T p}"
    by (rule Collect_cong) (simp add: chk' cong: conj_cong)
  also have "\<dots> = spec_X fm T"
    by (auto simp: spec_X_def)
  finally show ?thesis .
qed

lemma footprint_total:
  assumes "set (walk_acts it (set (concat log))) = set (concat log)"
  shows "\<forall>x\<in>set (concat log). \<forall>y\<in>set (concat log).
           \<exists>v. fm_get (build_footprint_matrix it log) x y = Inr v"
  by (simp add: fm_get_built [OF assms])

lemma is_maximal_iff: "is_maximal p xs \<longleftrightarrow> \<not> (\<exists>q\<in>set xs. dominated p q)"
  by (induction xs) (auto simp: dominated_def)

lemma fold_insert_if:
  "fold (\<lambda>x Y. if P x then insert x Y else Y) xs Y0 = Y0 \<union> {x \<in> set xs. P x}"
  by (induction xs arbitrary: Y0) auto

lemma find_maximal_pairs_spec:
  assumes "set (walk_pairs it X) = X"
  shows "find_maximal_pairs it X = spec_Y X"
  by (auto simp: find_maximal_pairs_def fold_insert_if assms is_maximal_iff spec_Y_def)

lemma str_small: "n < 10 \<Longrightarrow> str n = [char_of (48 + n)]"
  by (subst str.simps) simp

lemma str_big: "\<not> n < 10 \<Longrightarrow> str n = str (n div 10) @ [char_of (48 + n mod 10)]"
  by (subst str.simps) simp

lemma str_nonempty: "str n \<noteq> []"
  by (cases "n < 10") (simp_all add: str_small str_big)

lemma digit_inj:
  assumes "a < 10" "b < 10" "char_of (48 + a :: nat) = char_of (48 + b :: nat)"
  shows "a = b"
proof -
  from assms(3) have "of_char (char_of (48 + a)) = (of_char (char_of (48 + b)) :: nat)" by simp
  then have "(48 + a) mod 256 = (48 + b) mod 256" by (simp only: of_char_of)
  with assms(1,2) show ?thesis by simp
qed

lemma str_inj: "str m = str n \<Longrightarrow> m = n"
proof (induction m arbitrary: n rule: str.induct)
  case (1 m)
  show ?case
  proof (cases "m < 10")
    case True
    show ?thesis
    proof (cases "n < 10")
      case n: True
      from "1.prems" have "char_of (48 + m) = char_of (48 + n)"
        by (simp add: str_small True n)
      with True n show ?thesis by (rule digit_inj)
    next
      case n: False
      from "1.prems" str_nonempty [of "n div 10"] show ?thesis
        by (simp add: str_small [OF True] str_big [OF n])
    qed
  next
    case False
    show ?thesis
    proof (cases "n < 10")
      case n: True
      from "1.prems" str_nonempty [of "m div 10"] show ?thesis
        by (simp add: str_small [OF n] str_big [OF False])
    next
      case n: False
      from "1.prems" have
        eq: "str (m div 10) = str (n div 10)" "char_of (48 + m mod 10) = char_of (48 + n mod 10)"
        by (simp_all add: str_big [OF n] str_big [OF False])
      from "1.IH" [OF False eq(1)] have "m div 10 = n div 10" .
      moreover have "m mod 10 = n mod 10" by (rule digit_inj [OF _ _ eq(2)]) simp_all
      ultimately show ?thesis by (metis div_mult_mod_eq)
    qed
  qed
qed

lemma place_name_inj: "inj place_name"
  by (rule injI) (simp add: place_name_def str_inj)

section \<open>The discovered net\<close>

lemma first_activities_ok: "[] \<notin> set log \<Longrightarrow> first_activities log = Inr (hd ` set log)"
  by (induction log rule: first_activities.induct) auto

lemma last_activities_ok: "[] \<notin> set log \<Longrightarrow> last_activities log = Inr (last ` set log)"
  by (induction log rule: last_activities.induct) auto

lemma first_activities_empty_trace: "[] \<in> set log \<Longrightarrow> first_activities log = Inl IndexError"
  by (induction log rule: first_activities.induct) auto

lemma fold_insert_image: "fold (\<lambda>t. insert (f t)) xs S = S \<union> f ` set xs"
  by (induction xs arbitrary: S) auto

lemma place_arcs_pair_arcs:
  assumes "set (walk_acts it (fst p)) = fst p" "set (walk_acts it (snd p)) = snd p"
  shows "place_arcs it (i, p) F = F \<union> pair_arcs i p"
  using assms by (cases p) (auto simp: place_arcs_def pair_arcs_def fold_insert_image)

lemma fold_place_arcs:
  assumes "\<forall>p\<in>set ys. set (walk_acts it (fst p)) = fst p \<and> set (walk_acts it (snd p)) = snd p"
  shows "fold (place_arcs it) (enumerate n ys) F = F \<union> (\<Union>i<length ys. pair_arcs (n + i) (ys ! i))"
  using assms
proof (induction ys arbitrary: n F)
  case Nil
  then show ?case by simp
next
  case (Cons y ys)
  have split: "(\<Union>i<Suc (length ys). pair_arcs (n + i) ((y # ys) ! i)) =
        pair_arcs n y \<union> (\<Union>i<length ys. pair_arcs (Suc n + i) (ys ! i))"
    by (simp add: lessThan_Suc_eq_insert_0 image_image)
  from Cons.prems have y: "place_arcs it (n, y) F = F \<union> pair_arcs n y"
    by (intro place_arcs_pair_arcs) simp_all
  from Cons.prems have "\<forall>p\<in>set ys. set (walk_acts it (fst p)) = fst p \<and> set (walk_acts it (snd p)) = snd p"
    by simp
  from Cons.IH [OF this] show ?case
    by (simp add: y split Un_assoc)
qed

lemma spec_X_subset: "p \<in> spec_X fm T \<Longrightarrow> fst p \<subseteq> T \<and> snd p \<subseteq> T"
  by (auto simp: spec_X_def)

lemma spec_Y_subset: "spec_Y X \<subseteq> X"
  by (auto simp: spec_Y_def)

lemma discover_net:
  fixes it log
  defines "T \<equiv> set (concat log)"
  defines "X \<equiv> spec_X (build_footprint_matrix it log) T"
  defines "Y \<equiv> spec_Y X"
  assumes ne: "[] \<notin> set log"
    and acts: "walks_all it T"
    and wX: "set (walk_pairs it X) = X"
    and wY: "walks (walk_pairs it) Y"
  shows "discover it (init it log) =
     Inr \<lparr>places = insert ''end'' (insert ''start'' (place_name ` {..<card Y})),
          transitions = T,
          arcs = (\<lambda>t. (''start'', t)) ` hd ` set log \<union> (\<lambda>t. (t, ''end'')) ` last ` set log \<union>
                 (\<Union>i<card Y. pair_arcs i (walk_pairs it Y ! i))\<rparr>"
proof -
  have wa: "set (walk_acts it S) = S" if "S \<subseteq> T" for S
    using acts that by (simp add: walks_def walks_all_def)
  have TI: "hd ` set log \<subseteq> T" and TO: "last ` set log \<subseteq> T"
    using ne by (auto simp: T_def intro!: bexI hd_in_set last_in_set)
  have cand: "candidate_pairs it (build_footprint_matrix it log) T = Inr X"
    unfolding X_def T_def
  proof (rule candidate_pairs_total)
    show "walks_all it (set (concat log))"
      using acts by (simp add: T_def)
    show "\<forall>x\<in>set (concat log). \<forall>y\<in>set (concat log).
            \<exists>v. fm_get (build_footprint_matrix it log) x y = Inr v"
      by (rule footprint_total) (simp add: wa [unfolded T_def])
  qed
  have fY: "find_maximal_pairs it X = Y"
    unfolding Y_def by (rule find_maximal_pairs_spec [OF wX])
  from wY have sY: "set (walk_pairs it Y) = Y" and dY: "distinct (walk_pairs it Y)"
    by (simp_all add: walks_def)
  have cY: "card Y = length (walk_pairs it Y)"
    using distinct_card [OF dY] by (simp only: sY)
  have "\<forall>p\<in>set (walk_pairs it Y).
          set (walk_acts it (fst p)) = fst p \<and> set (walk_acts it (snd p)) = snd p"
  proof
    fix p assume "p \<in> set (walk_pairs it Y)"
    then have "p \<in> Y" by (simp only: sY)
    then have "p \<in> X" using spec_Y_subset [of X] by (auto simp: Y_def)
    then have "fst p \<subseteq> T \<and> snd p \<subseteq> T" unfolding X_def by (rule spec_X_subset)
    then show "set (walk_acts it (fst p)) = fst p \<and> set (walk_acts it (snd p)) = snd p"
      by (simp add: wa)
  qed
  from fold_place_arcs [OF this, of 0]
  have fl: "fold (place_arcs it) (enumerate 0 (walk_pairs it Y)) F =
              F \<union> (\<Union>i<card Y. pair_arcs i (walk_pairs it Y ! i))" for F
    by (simp add: cY)
  have pl: "set [0..<card Y] = {..<card Y}" by auto
  show ?thesis
    unfolding discover_def init_def
    by (simp only: AlphaAlgorithm.simps first_activities_ok [OF ne] last_activities_ok [OF ne]
          cand cand [unfolded T_def] T_def [symmetric] sum.case Let_def fY fl fold_insert_image
          wa [OF TI] wa [OF TO] pl Un_empty_left)
qed

section \<open>Properties of the footprint matrix\<close>

lemma footprint_rule:
  assumes "set (walk_acts it (set (concat log))) = set (concat log)"
    and "a \<in> set (concat log)" and "b \<in> set (concat log)"
  shows "fm_get (footprint_matrix (init it log)) a b =
           Inr (if directly_follows log a b then (if directly_follows log b a then ''||'' else ''->'')
                else if directly_follows log b a then ''<-'' else ''#'')"
  using assms(2,3)
  by (simp add: init_def fm_get_built [OF assms(1)] relation_def scan_log_follows)

text \<open>
  C2. If the run visits every activity of the log when it iterates the set of activities, the
  footprint matrix built by the constructor holds, for every ordered pair (a, b) of activities
  of the log, one relation r out of \<open>->\<close>, \<open><-\<close>, \<open>||\<close> and \<open>#\<close>, and with s the
  relation of (b, a): r is \<open>->\<close> iff s is \<open><-\<close>, r is \<open>||\<close> iff s is \<open>||\<close>, and r is
  \<open>#\<close> iff s is \<open>#\<close>.
\<close>

theorem footprint_total_consistent:
  assumes "set (walk_acts it (set (concat log))) = set (concat log)"
    and "a \<in> set (concat log)" and "b \<in> set (concat log)"
  shows "\<exists>r s. fm_get (footprint_matrix (init it log)) a b = Inr r \<and>
               fm_get (footprint_matrix (init it log)) b a = Inr s \<and>
               r \<in> {''->'', ''<-'', ''||'', ''#''} \<and>
               (r = ''->'' \<longleftrightarrow> s = ''<-'') \<and>
               (r = ''||'' \<longleftrightarrow> s = ''||'') \<and>
               (r = ''#'' \<longleftrightarrow> s = ''#'')"
  unfolding footprint_rule [OF assms(1,2,3)] footprint_rule [OF assms(1,3,2)]
  by simp

theorem footprint_total_consistent_witness:
  "set (walk_acts (run_order [''a'', ''b'', ''c''] []) (set (concat [[''a'', ''b'', ''c'']])))
     = set (concat [[''a'', ''b'', ''c'']]) \<and>
   ''a'' \<in> set (concat [[''a'', ''b'', ''c'']]) \<and>
   ''b'' \<in> set (concat [[''a'', ''b'', ''c'']]) \<and>
   (\<exists>r s. fm_get (footprint_matrix (init (run_order [''a'', ''b'', ''c''] []) [[''a'', ''b'', ''c'']])) ''a'' ''b'' = Inr r \<and>
          fm_get (footprint_matrix (init (run_order [''a'', ''b'', ''c''] []) [[''a'', ''b'', ''c'']])) ''b'' ''a'' = Inr s \<and>
          r \<in> {''->'', ''<-'', ''||'', ''#''} \<and>
          (r = ''->'' \<longleftrightarrow> s = ''<-'') \<and>
          (r = ''||'' \<longleftrightarrow> s = ''||'') \<and>
          (r = ''#'' \<longleftrightarrow> s = ''#''))"
proof -
  have h1: "set (walk_acts (run_order [''a'', ''b'', ''c''] []) (set (concat [[''a'', ''b'', ''c'']])))
     = set (concat [[''a'', ''b'', ''c'']])"
    by (simp add: run_order_def walk_in_order_def)
  have h2: "''a'' \<in> set (concat [[''a'', ''b'', ''c'']])" by simp
  have h3: "''b'' \<in> set (concat [[''a'', ''b'', ''c'']])" by simp
  from h1 h2 h3 footprint_total_consistent [OF h1 h2 h3] show ?thesis by (intro conjI)
qed

text \<open>
  C8. Under the same condition on the run, the matrix classifies every ordered pair (a, b)
  of activities of the log, a = b included, by one rule: \<open>||\<close> if b directly follows a
  in some trace and a directly follows b in some trace, \<open>->\<close> if only the first holds,
  \<open><-\<close> if only the second, \<open>#\<close> otherwise. For a self-pair (a, a) this is \<open>||\<close> if a
  directly follows itself in some trace and \<open>#\<close> otherwise, and never \<open>->\<close>.
\<close>

theorem self_pair_rule:
  assumes "set (walk_acts it (set (concat log))) = set (concat log)"
    and "a \<in> set (concat log)" and "b \<in> set (concat log)"
  shows "fm_get (footprint_matrix (init it log)) a b =
           Inr (if directly_follows log a b \<and> directly_follows log b a then ''||''
                else if directly_follows log a b then ''->''
                else if directly_follows log b a then ''<-''
                else ''#'') \<and>
         fm_get (footprint_matrix (init it log)) a a =
           Inr (if directly_follows log a a then ''||'' else ''#'') \<and>
         fm_get (footprint_matrix (init it log)) a a \<noteq> Inr ''->''"
  unfolding footprint_rule [OF assms(1,2,3)] footprint_rule [OF assms(1,2,2)]
  by simp

theorem self_pair_rule_witness:
  "set (walk_acts (run_order [''a'', ''b''] []) (set (concat [[''a'', ''a'', ''b'']])))
     = set (concat [[''a'', ''a'', ''b'']]) \<and>
   ''a'' \<in> set (concat [[''a'', ''a'', ''b'']]) \<and>
   ''b'' \<in> set (concat [[''a'', ''a'', ''b'']]) \<and>
   directly_follows [[''a'', ''a'', ''b'']] ''a'' ''a'' \<and>
   fm_get (footprint_matrix (init (run_order [''a'', ''b''] []) [[''a'', ''a'', ''b'']])) ''a'' ''a''
     = Inr ''||''"
proof -
  have h1: "set (walk_acts (run_order [''a'', ''b''] []) (set (concat [[''a'', ''a'', ''b'']])))
     = set (concat [[''a'', ''a'', ''b'']])"
    by (simp add: run_order_def walk_in_order_def)
  have h2: "''a'' \<in> set (concat [[''a'', ''a'', ''b'']])" by simp
  have h3: "''b'' \<in> set (concat [[''a'', ''a'', ''b'']])" by simp
  have d: "directly_follows [[''a'', ''a'', ''b'']] ''a'' ''a''"
    by (simp add: directly_follows_def)
  from self_pair_rule [OF h1 h2 h3] d
  have "fm_get (footprint_matrix (init (run_order [''a'', ''b''] []) [[''a'', ''a'', ''b'']])) ''a'' ''a''
     = Inr ''||''" by simp
  with h1 h2 h3 d show ?thesis by (intro conjI)
qed

section \<open>The candidate pairs of a log, and the example log\<close>

lemma walks_walk_in_order: "distinct xs \<Longrightarrow> S \<subseteq> set xs \<Longrightarrow> walks (walk_in_order xs) S"
  by (auto simp: walks_def walk_in_order_def)

lemma candidate_pairs_log:
  assumes "walks_all it (set (concat log))"
  shows "candidate_pairs it (footprint_matrix (init it log)) (set (concat log)) =
           Inr (spec_X (build_footprint_matrix it log) (set (concat log)))"
proof -
  from assms have "set (walk_acts it (set (concat log))) = set (concat log)"
    by (simp add: walks_def walks_all_def)
  from candidate_pairs_total [OF assms footprint_total [OF this]]
  show ?thesis by (simp add: init_def)
qed

lemma walks_run_order:
  "distinct as \<Longrightarrow> S \<subseteq> set as \<Longrightarrow> walks (walk_acts (run_order as ps)) S"
  "distinct ps \<Longrightarrow> P \<subseteq> set ps \<Longrightarrow> walks (walk_pairs (run_order as ps)) P"
  by (simp_all add: run_order_def walks_walk_in_order)

lemma abc_acts: "walks_all run_abc (set (concat log_abc))"
  unfolding run_abc_def log_abc_def walks_all_def by (auto intro!: walks_run_order)

lemma cba_acts: "walks_all run_cba (set (concat log_abc))"
  unfolding run_cba_def log_abc_def walks_all_def by (auto intro!: walks_run_order)

lemma abc_candidates:
  "candidate_pairs run_abc (footprint_matrix (init run_abc log_abc)) (set (concat log_abc)) =
      Inr {({''a''}, {''b''}), ({''b''}, {''c''})}"
  by code_simp

lemma cba_candidates:
  "candidate_pairs run_cba (footprint_matrix (init run_cba log_abc)) (set (concat log_abc)) =
      Inr {({''a''}, {''b''}), ({''b''}, {''c''})}"
  by code_simp

lemma abc_X:
  "spec_X (build_footprint_matrix run_abc log_abc) (set (concat log_abc)) =
     {({''a''}, {''b''}), ({''b''}, {''c''})}"
  using candidate_pairs_log [OF abc_acts] by (simp only: abc_candidates sum.inject)

lemma cba_X:
  "spec_X (build_footprint_matrix run_cba log_abc) (set (concat log_abc)) =
     {({''a''}, {''b''}), ({''b''}, {''c''})}"
  using candidate_pairs_log [OF cba_acts] by (simp only: cba_candidates sum.inject)

lemma abc_Y:
  "spec_Y {({''a''}, {''b''}), ({''b''}, {''c''})} = {({''a''}, {''b''}), ({''b''}, {''c''})}"
  by code_simp

lemma abc_walk_pairs:
  "walks (walk_pairs run_abc) {({''a''}, {''b''}), ({''b''}, {''c''})}"
  by code_simp

lemma cba_walk_pairs:
  "walks (walk_pairs run_cba) {({''a''}, {''b''}), ({''b''}, {''c''})}"
  by code_simp

lemma abc_nonempty: "[] \<notin> set log_abc"
  by (simp add: log_abc_def)

section \<open>Properties of the candidate pairs\<close>

text \<open>
  C1. If the run visits every element of each set of activities of the log exactly once
  when it iterates it, the candidate generation of \<open>discover\<close> (step 4) raises nothing and
  the set X it builds holds exactly the pairs (A, B) of non-empty subsets of the alphabet with:
  every pair within A is \<open>#\<close> in the footprint matrix, every pair within B is \<open>#\<close>, and
  every pair (a, b) with a in A and b in B is \<open>->\<close>.
\<close>

theorem candidate_pairs_exact:
  assumes "walks_all it (set (concat log))"
  shows "\<exists>X. candidate_pairs it (footprint_matrix (init it log)) (set (concat log)) = Inr X \<and>
     (\<forall>A B. (A, B) \<in> X \<longleftrightarrow>
        A \<noteq> {} \<and> B \<noteq> {} \<and> A \<subseteq> set (concat log) \<and> B \<subseteq> set (concat log) \<and>
        (\<forall>a1\<in>A. \<forall>a2\<in>A. fm_get (footprint_matrix (init it log)) a1 a2 = Inr ''#'') \<and>
        (\<forall>b1\<in>B. \<forall>b2\<in>B. fm_get (footprint_matrix (init it log)) b1 b2 = Inr ''#'') \<and>
        (\<forall>a\<in>A. \<forall>b\<in>B. fm_get (footprint_matrix (init it log)) a b = Inr ''->''))"
proof (intro exI conjI)
  show "candidate_pairs it (footprint_matrix (init it log)) (set (concat log)) =
          Inr (spec_X (build_footprint_matrix it log) (set (concat log)))"
    by (rule candidate_pairs_log [OF assms])
  show "\<forall>A B. (A, B) \<in> spec_X (build_footprint_matrix it log) (set (concat log)) \<longleftrightarrow>
        A \<noteq> {} \<and> B \<noteq> {} \<and> A \<subseteq> set (concat log) \<and> B \<subseteq> set (concat log) \<and>
        (\<forall>a1\<in>A. \<forall>a2\<in>A. fm_get (footprint_matrix (init it log)) a1 a2 = Inr ''#'') \<and>
        (\<forall>b1\<in>B. \<forall>b2\<in>B. fm_get (footprint_matrix (init it log)) b1 b2 = Inr ''#'') \<and>
        (\<forall>a\<in>A. \<forall>b\<in>B. fm_get (footprint_matrix (init it log)) a b = Inr ''->'')"
    by (auto simp: spec_X_def CandidatePair_def init_def)
qed

theorem candidate_pairs_exact_witness:
  "walks_all run_abc (set (concat log_abc)) \<and>
   (\<exists>X. candidate_pairs run_abc (footprint_matrix (init run_abc log_abc)) (set (concat log_abc)) = Inr X \<and>
     (\<forall>A B. (A, B) \<in> X \<longleftrightarrow>
        A \<noteq> {} \<and> B \<noteq> {} \<and> A \<subseteq> set (concat log_abc) \<and> B \<subseteq> set (concat log_abc) \<and>
        (\<forall>a1\<in>A. \<forall>a2\<in>A. fm_get (footprint_matrix (init run_abc log_abc)) a1 a2 = Inr ''#'') \<and>
        (\<forall>b1\<in>B. \<forall>b2\<in>B. fm_get (footprint_matrix (init run_abc log_abc)) b1 b2 = Inr ''#'') \<and>
        (\<forall>a\<in>A. \<forall>b\<in>B. fm_get (footprint_matrix (init run_abc log_abc)) a b = Inr ''->'')))"
  by (rule conjI [OF abc_acts candidate_pairs_exact [OF abc_acts]])

text \<open>
  C10. Under the condition on the run of C1, every pair (A, B) of the set X built by the
  candidate generation of \<open>discover\<close> has A and B disjoint.
\<close>

theorem candidate_pair_disjoint:
  assumes "walks_all it (set (concat log))"
    and "candidate_pairs it (footprint_matrix (init it log)) (set (concat log)) = Inr X"
    and "(A, B) \<in> X"
  shows "A \<inter> B = {}"
proof (rule ccontr)
  assume "A \<inter> B \<noteq> {}"
  then obtain a where a: "a \<in> A" "a \<in> B" by blast
  from assms(2) candidate_pairs_log [OF assms(1)]
  have "X = spec_X (build_footprint_matrix it log) (set (concat log))" by simp
  with assms(3) have "CandidatePair (build_footprint_matrix it log) (set (concat log)) (A, B)"
    by (simp add: spec_X_def)
  then have "\<forall>a1\<in>A. \<forall>a2\<in>A. fm_get (build_footprint_matrix it log) a1 a2 = Inr ''#''"
    and "\<forall>a\<in>A. \<forall>b\<in>B. fm_get (build_footprint_matrix it log) a b = Inr ''->''"
    by (simp_all add: CandidatePair_def)
  with a have "fm_get (build_footprint_matrix it log) a a = Inr ''#''"
    and "fm_get (build_footprint_matrix it log) a a = Inr ''->''"
    by blast+
  then show False by simp
qed

theorem candidate_pair_disjoint_witness:
  "walks_all run_abc (set (concat log_abc)) \<and>
   candidate_pairs run_abc (footprint_matrix (init run_abc log_abc)) (set (concat log_abc)) =
      Inr {({''a''}, {''b''}), ({''b''}, {''c''})} \<and>
   ({''a''}, {''b''}) \<in> {({''a''}, {''b''}), ({''b''}, {''c''})} \<and>
   {''a''} \<inter> {''b''} = ({} :: activity set)"
proof -
  have m: "({''a''}, {''b''}) \<in> {({''a''}, {''b''}), ({''b''}, {''c''})}" by simp
  from abc_acts abc_candidates m candidate_pair_disjoint [OF abc_acts abc_candidates m]
  show ?thesis by (intro conjI)
qed

section \<open>Properties of the maximal pairs\<close>

text \<open>
  C3. If the run visits every element of X when it iterates X, the set Y returned by
  \<open>_find_maximal_pairs\<close> is a subset of X; no element of Y is componentwise included in
  another, distinct element of Y; and a pair p = (A, B) of X is in Y exactly when X has no
  other pair (A', B') with A \<subseteq> A' and B \<subseteq> B'.
\<close>

theorem find_maximal_pairs_antichain:
  assumes "set (walk_pairs it X) = X"
  shows "find_maximal_pairs it X \<subseteq> X \<and>
         (\<forall>p\<in>find_maximal_pairs it X. \<forall>q\<in>find_maximal_pairs it X.
            p \<noteq> q \<longrightarrow> \<not> (fst p \<subseteq> fst q \<and> snd p \<subseteq> snd q)) \<and>
         (\<forall>p\<in>X. p \<in> find_maximal_pairs it X \<longleftrightarrow>
            \<not> (\<exists>p'\<in>X. p' \<noteq> p \<and> fst p \<subseteq> fst p' \<and> snd p \<subseteq> snd p'))"
proof -
  have Y: "p \<in> find_maximal_pairs it X \<longleftrightarrow>
             p \<in> X \<and> \<not> (\<exists>p'\<in>X. p' \<noteq> p \<and> fst p \<subseteq> fst p' \<and> snd p \<subseteq> snd p')" for p
    unfolding find_maximal_pairs_spec [OF assms] by (simp add: spec_Y_def dominated_def)
  have "find_maximal_pairs it X \<subseteq> X"
    using Y by blast
  moreover have "\<forall>p\<in>find_maximal_pairs it X. \<forall>q\<in>find_maximal_pairs it X.
            p \<noteq> q \<longrightarrow> \<not> (fst p \<subseteq> fst q \<and> snd p \<subseteq> snd q)"
  proof (intro ballI impI)
    fix p q
    assume p: "p \<in> find_maximal_pairs it X" and q: "q \<in> find_maximal_pairs it X"
      and "p \<noteq> q"
    from q have "q \<in> X" by (simp add: Y)
    with p \<open>p \<noteq> q\<close> show "\<not> (fst p \<subseteq> fst q \<and> snd p \<subseteq> snd q)"
      unfolding Y [of p] by metis
  qed
  moreover have "\<forall>p\<in>X. p \<in> find_maximal_pairs it X \<longleftrightarrow>
            \<not> (\<exists>p'\<in>X. p' \<noteq> p \<and> fst p \<subseteq> fst p' \<and> snd p \<subseteq> snd p')"
    by (simp add: Y)
  ultimately show ?thesis by (intro conjI)
qed

theorem find_maximal_pairs_antichain_witness:
  "set (walk_pairs (run_order [] [({''a''}, {''b''}), ({''a''}, {''b'', ''c''})])
         {({''a''}, {''b''}), ({''a''}, {''b'', ''c''})}) = {({''a''}, {''b''}), ({''a''}, {''b'', ''c''})} \<and>
   ({''a''}, {''b''}) \<notin> find_maximal_pairs (run_order [] [({''a''}, {''b''}), ({''a''}, {''b'', ''c''})])
         {({''a''}, {''b''}), ({''a''}, {''b'', ''c''})} \<and>
   ({''a''}, {''b'', ''c''}) \<in> find_maximal_pairs (run_order [] [({''a''}, {''b''}), ({''a''}, {''b'', ''c''})])
         {({''a''}, {''b''}), ({''a''}, {''b'', ''c''})}"
proof -
  let ?it = "run_order [] [({''a''}, {''b''}), ({''a''}, {''b'', ''c''})]"
  let ?X = "{({''a''}, {''b''}), ({''a''}, {''b'', ''c''})} :: pair set"
  have h: "set (walk_pairs ?it ?X) = ?X" by code_simp
  have ne: "({''a''}, {''b'', ''c''}) \<noteq> ({''a''}, {''b''})" by code_simp
  from find_maximal_pairs_antichain [OF h]
  have m: "\<forall>p\<in>?X. p \<in> find_maximal_pairs ?it ?X \<longleftrightarrow>
            \<not> (\<exists>p'\<in>?X. p' \<noteq> p \<and> fst p \<subseteq> fst p' \<and> snd p \<subseteq> snd p')"
    by (elim conjE)
  from m have "({''a''}, {''b''}) \<in> find_maximal_pairs ?it ?X \<longleftrightarrow>
      \<not> (\<exists>p'\<in>?X. p' \<noteq> ({''a''}, {''b''}) \<and> fst ({''a''}, {''b''}) \<subseteq> fst p' \<and> snd ({''a''}, {''b''}) \<subseteq> snd p')"
    by (rule bspec) simp
  then have 1: "({''a''}, {''b''}) \<notin> find_maximal_pairs ?it ?X" using ne by simp
  from m have "({''a''}, {''b'', ''c''}) \<in> find_maximal_pairs ?it ?X \<longleftrightarrow>
      \<not> (\<exists>p'\<in>?X. p' \<noteq> ({''a''}, {''b'', ''c''}) \<and> fst ({''a''}, {''b'', ''c''}) \<subseteq> fst p' \<and> snd ({''a''}, {''b'', ''c''}) \<subseteq> snd p')"
    by (rule bspec) simp
  then have 2: "({''a''}, {''b'', ''c''}) \<in> find_maximal_pairs ?it ?X" by simp
  from h 1 2 show ?thesis by (intro conjI)
qed

section \<open>Properties of the discovered net\<close>

lemma discover_empty_trace: "[] \<in> set log \<Longrightarrow> discover it (init it log) = Inl IndexError"
  by (simp add: discover_def init_def first_activities_empty_trace)

lemma place_name_not_boundary: "place_name i \<noteq> ''start'' \<and> place_name i \<noteq> ''end''"
  by (simp add: place_name_def)

lemma build_footprint_matrix_eq:
  assumes "set (walk_acts it (set (concat log))) = set (concat log)"
  shows "build_footprint_matrix it log =
    (\<lambda>a. if a \<in> set (concat log)
          then Some (\<lambda>b. if b \<in> set (concat log) then Some (relation (fst (scan_log log)) a b) else None)
          else None)"
proof -
  obtain ds acts where s: "scan_log log = (ds, acts)" by (cases "scan_log log")
  with scan_log_activities [of log] have acts: "acts = set (concat log)" by simp
  show ?thesis
    by (simp only: build_footprint_matrix_def s acts prod.case fold_map_upd assms fst_conv)
qed

lemma footprint_matrix_init: "footprint_matrix (init it log) = build_footprint_matrix it log"
  by (simp add: init_def)

lemma build_footprint_matrix_run:
  assumes "set (walk_acts it1 (set (concat log))) = set (concat log)"
    and "set (walk_acts it2 (set (concat log))) = set (concat log)"
  shows "build_footprint_matrix it1 log = build_footprint_matrix it2 log"
  by (simp only: build_footprint_matrix_eq [OF assms(1)] build_footprint_matrix_eq [OF assms(2)])

text \<open>
  C4. Let the log have no empty trace, and let the run visit each element exactly once when
  it iterates a set of activities of the log, the set X of candidate pairs and the set Y of
  maximal pairs. Then step 4 of \<open>discover\<close> builds X, \<open>_find_maximal_pairs\<close> returns Y, and
  \<open>discover\<close> returns a net with: as places, start, end and the places \<open>p_i\<close> for i below
  the number of elements of Y, which are pairwise different, different from start and end,
  and in one-to-one correspondence with the elements of Y (\<open>p_i\<close> belongs to the i-th pair
  of Y in the order of the run); as transitions, the activities of the log; as arcs, start to
  the first activity of each trace, the last activity of each trace to end, and for the
  pair (A, B) of each place \<open>p_i\<close>, a to \<open>p_i\<close> for a in A and \<open>p_i\<close> to b for b in B.
\<close>

theorem discover_net_exact:
  fixes it log
  defines "T \<equiv> set (concat log)"
  defines "X \<equiv> spec_X (footprint_matrix (init it log)) T"
  defines "Y \<equiv> spec_Y X"
  assumes "[] \<notin> set log"
    and "walks_all it T"
    and "walks (walk_pairs it) X"
    and "walks (walk_pairs it) Y"
  shows "candidate_pairs it (footprint_matrix (init it log)) T = Inr X \<and>
         find_maximal_pairs it X = Y \<and>
         (\<exists>net. discover it (init it log) = Inr net \<and>
            places net = {''start'', ''end''} \<union> place_name ` {..<card Y} \<and>
            inj_on place_name {..<card Y} \<and>
            place_name ` {..<card Y} \<inter> {''start'', ''end''} = {} \<and>
            bij_betw (\<lambda>i. walk_pairs it Y ! i) {..<card Y} Y \<and>
            transitions net = T \<and>
            arcs net =
              {(''start'', hd tr) | tr. tr \<in> set log} \<union>
              {(last tr, ''end'') | tr. tr \<in> set log} \<union>
              (\<Union>i<card Y. {(a, place_name i) | a. a \<in> fst (walk_pairs it Y ! i)} \<union>
                           {(place_name i, b) | b. b \<in> snd (walk_pairs it Y ! i)}))"
proof -
  note fm = footprint_matrix_init
  have wX: "set (walk_pairs it X) = X" using assms(6) by (simp add: walks_def)
  from assms(7) have sY: "set (walk_pairs it Y) = Y" and dY: "distinct (walk_pairs it Y)"
    by (simp_all add: walks_def)
  have cY: "card Y = length (walk_pairs it Y)"
    using distinct_card [OF dY] by (simp only: sY)
  have 1: "candidate_pairs it (footprint_matrix (init it log)) T = Inr X"
    unfolding X_def T_def footprint_matrix_init
    using assms(5) [unfolded T_def] by (rule candidate_pairs_log [unfolded footprint_matrix_init])
  have 2: "find_maximal_pairs it X = Y"
    unfolding Y_def by (rule find_maximal_pairs_spec [OF wX])
  let ?net = "\<lparr>places = insert ''end'' (insert ''start'' (place_name ` {..<card Y})),
          transitions = T,
          arcs = (\<lambda>t. (''start'', t)) ` hd ` set log \<union> (\<lambda>t. (t, ''end'')) ` last ` set log \<union>
                 (\<Union>i<card Y. pair_arcs i (walk_pairs it Y ! i))\<rparr>"
  have 3: "discover it (init it log) = Inr ?net"
    unfolding Y_def X_def T_def fm
    by (rule discover_net [OF assms(4) assms(5) [unfolded T_def] wX [unfolded X_def T_def fm]
          assms(7) [unfolded Y_def X_def T_def fm]])
  have 4: "bij_betw (\<lambda>i. walk_pairs it Y ! i) {..<card Y} Y"
    by (rule bij_betw_nth [OF dY]) (simp_all add: cY sY)
  have 5: "inj_on place_name {..<card Y}"
    using place_name_inj by (rule inj_on_subset) simp
  have 6: "place_name ` {..<card Y} \<inter> {''start'', ''end''} = {}"
    by (auto simp: place_name_def)
  have 7: "arcs ?net = {(''start'', hd tr) | tr. tr \<in> set log} \<union>
              {(last tr, ''end'') | tr. tr \<in> set log} \<union>
              (\<Union>i<card Y. {(a, place_name i) | a. a \<in> fst (walk_pairs it Y ! i)} \<union>
                           {(place_name i, b) | b. b \<in> snd (walk_pairs it Y ! i)})"
    by (auto simp: pair_arcs_def)
  have 8: "places ?net = {''start'', ''end''} \<union> place_name ` {..<card Y}"
    by auto
  from 3 4 5 6 7 8 have "\<exists>net. discover it (init it log) = Inr net \<and>
            places net = {''start'', ''end''} \<union> place_name ` {..<card Y} \<and>
            inj_on place_name {..<card Y} \<and>
            place_name ` {..<card Y} \<inter> {''start'', ''end''} = {} \<and>
            bij_betw (\<lambda>i. walk_pairs it Y ! i) {..<card Y} Y \<and>
            transitions net = T \<and>
            arcs net =
              {(''start'', hd tr) | tr. tr \<in> set log} \<union>
              {(last tr, ''end'') | tr. tr \<in> set log} \<union>
              (\<Union>i<card Y. {(a, place_name i) | a. a \<in> fst (walk_pairs it Y ! i)} \<union>
                           {(place_name i, b) | b. b \<in> snd (walk_pairs it Y ! i)})"
    by (intro exI [of _ ?net] conjI) simp_all
  with 1 2 show ?thesis by (intro conjI)
qed

lemma abc_X': "spec_X (footprint_matrix (init run_abc log_abc)) (set (concat log_abc)) =
     {({''a''}, {''b''}), ({''b''}, {''c''})}"
  by (simp only: footprint_matrix_init abc_X)

lemma cba_X': "spec_X (footprint_matrix (init run_cba log_abc)) (set (concat log_abc)) =
     {({''a''}, {''b''}), ({''b''}, {''c''})}"
  by (simp only: footprint_matrix_init cba_X)

lemma abc_walk_X:
  "walks (walk_pairs run_abc) (spec_X (footprint_matrix (init run_abc log_abc)) (set (concat log_abc)))"
  by (simp only: abc_X' abc_walk_pairs)

lemma abc_walk_Y:
  "walks (walk_pairs run_abc)
     (spec_Y (spec_X (footprint_matrix (init run_abc log_abc)) (set (concat log_abc))))"
  by (simp only: abc_X' abc_Y abc_walk_pairs)

theorem discover_net_exact_witness:
  "[] \<notin> set log_abc \<and>
   walks_all run_abc (set (concat log_abc)) \<and>
   walks (walk_pairs run_abc) (spec_X (footprint_matrix (init run_abc log_abc)) (set (concat log_abc))) \<and>
   walks (walk_pairs run_abc)
     (spec_Y (spec_X (footprint_matrix (init run_abc log_abc)) (set (concat log_abc)))) \<and>
   (\<exists>net. discover run_abc (init run_abc log_abc) = Inr net \<and>
          places net = {''start'', ''end''} \<union> place_name ` {..<2} \<and>
          transitions net = set (concat log_abc))"
proof -
  have c: "card (spec_Y (spec_X (footprint_matrix (init run_abc log_abc)) (set (concat log_abc)))) = 2"
    unfolding abc_X' abc_Y by code_simp
  from discover_net_exact [OF abc_nonempty abc_acts abc_walk_X abc_walk_Y]
  have "\<exists>net. discover run_abc (init run_abc log_abc) = Inr net \<and>
          places net = {''start'', ''end''} \<union> place_name ` {..<2} \<and>
          transitions net = set (concat log_abc)"
    unfolding c by (elim conjE exE) (intro exI conjI, assumption+)
  with abc_nonempty abc_acts abc_walk_X abc_walk_Y show ?thesis by (intro conjI)
qed

lemma discover_Inr_nonempty: "discover it (init it log) = Inr net \<Longrightarrow> [] \<notin> set log"
  using discover_empty_trace [of log it] by auto

lemma spec_Y_in_alphabet:
  "p \<in> spec_Y (spec_X fm T) \<Longrightarrow> fst p \<subseteq> T \<and> snd p \<subseteq> T"
  using spec_Y_subset [of "spec_X fm T"] spec_X_subset [of p fm T] by blast

text \<open>
  C9 (amended). Let the run visit each element exactly once when it iterates a set of
  activities of the log, the set X and the set Y. If \<open>discover\<close> returns a net in which no
  name is both a place and a transition (no activity of the log is called start, end or
  \<open>p_i\<close> with i below the number of maximal pairs), then the net is bipartite, no arc joining two places
  or two transitions, and every arc of it joins a place and a transition, in one direction
  or the other.
\<close>

theorem discover_bipartite:
  fixes it log
  defines "T \<equiv> set (concat log)"
  defines "X \<equiv> spec_X (footprint_matrix (init it log)) T"
  defines "Y \<equiv> spec_Y X"
  assumes "walks_all it T"
    and "walks (walk_pairs it) X"
    and "walks (walk_pairs it) Y"
    and "discover it (init it log) = Inr net"
    and "places net \<inter> transitions net = {}"
  shows "bipartite net \<and>
         (\<forall>(s, t)\<in>arcs net.
            s \<in> places net \<and> t \<in> transitions net \<or> s \<in> transitions net \<and> t \<in> places net)"
proof -
  note fm = footprint_matrix_init
  have ne: "[] \<notin> set log" using assms(7) by (rule discover_Inr_nonempty)
  have wX: "set (walk_pairs it X) = X" using assms(5) by (simp add: walks_def)
  from assms(6) have sY: "set (walk_pairs it Y) = Y" and dY: "distinct (walk_pairs it Y)"
    by (simp_all add: walks_def)
  have cY: "card Y = length (walk_pairs it Y)"
    using distinct_card [OF dY] by (simp only: sY)
  let ?net = "\<lparr>places = insert ''end'' (insert ''start'' (place_name ` {..<card Y})),
          transitions = T,
          arcs = (\<lambda>t. (''start'', t)) ` hd ` set log \<union> (\<lambda>t. (t, ''end'')) ` last ` set log \<union>
                 (\<Union>i<card Y. pair_arcs i (walk_pairs it Y ! i))\<rparr>"
  have "discover it (init it log) = Inr ?net"
    unfolding Y_def X_def T_def fm
    by (rule discover_net [OF ne assms(4) [unfolded T_def] wX [unfolded X_def T_def fm]
          assms(6) [unfolded Y_def X_def T_def fm]])
  with assms(7) have net: "net = ?net" by simp
  have inT: "fst (walk_pairs it Y ! i) \<subseteq> T \<and> snd (walk_pairs it Y ! i) \<subseteq> T" if "i < card Y" for i
  proof -
    from that have "walk_pairs it Y ! i \<in> set (walk_pairs it Y)" by (simp add: cY)
    then have "walk_pairs it Y ! i \<in> Y"
      by (simp only: sY)
    then have "walk_pairs it Y ! i \<in> spec_Y (spec_X (footprint_matrix (init it log)) T)"
      by (simp only: Y_def X_def)
    then show ?thesis by (rule spec_Y_in_alphabet)
  qed
  have hdT: "hd tr \<in> T" and lastT: "last tr \<in> T" if "tr \<in> set log" for tr
  proof -
    from that ne have "tr \<noteq> []" by auto
    then have "hd tr \<in> set tr" "last tr \<in> set tr" by simp_all
    with that show "hd tr \<in> T" "last tr \<in> T" by (auto simp: T_def)
  qed
  have typed: "s \<in> places net \<and> t \<in> transitions net \<or> s \<in> transitions net \<and> t \<in> places net"
    if "(s, t) \<in> arcs net" for s t
  proof -
    from that consider
        (initial) tr where "tr \<in> set log" "s = ''start''" "t = hd tr"
      | (final) tr where "tr \<in> set log" "s = last tr" "t = ''end''"
      | (into) i where "i < card Y" "s \<in> fst (walk_pairs it Y ! i)" "t = place_name i"
      | (out) i where "i < card Y" "t \<in> snd (walk_pairs it Y ! i)" "s = place_name i"
      unfolding net by (auto simp: pair_arcs_def)
    then show ?thesis
    proof cases
      case initial
      with hdT [of tr] show ?thesis by (simp add: net)
    next
      case final
      with lastT [of tr] show ?thesis by (simp add: net)
    next
      case into
      with inT [of i] have "s \<in> T" by blast
      with into show ?thesis by (simp add: net)
    next
      case out
      with inT [of i] have "t \<in> T" by blast
      with out show ?thesis by (simp add: net)
    qed
  qed
  have "bipartite net"
    unfolding bipartite_def using typed assms(8) by blast
  with typed show ?thesis by blast
qed

lemma abc_net: "discover run_abc (init run_abc log_abc) =
   Inr \<lparr>places = {''start'', ''end'', ''p_0'', ''p_1''}, transitions = {''a'', ''b'', ''c''},
      arcs = {(''start'', ''a''), (''c'', ''end''), (''a'', ''p_0''), (''p_0'', ''b''),
              (''b'', ''p_1''), (''p_1'', ''c'')}\<rparr>"
  by code_simp

theorem discover_bipartite_witness:
  "walks_all run_abc (set (concat log_abc)) \<and>
   walks (walk_pairs run_abc) (spec_X (footprint_matrix (init run_abc log_abc)) (set (concat log_abc))) \<and>
   walks (walk_pairs run_abc)
     (spec_Y (spec_X (footprint_matrix (init run_abc log_abc)) (set (concat log_abc)))) \<and>
   discover run_abc (init run_abc log_abc) =
     Inr \<lparr>places = {''start'', ''end'', ''p_0'', ''p_1''}, transitions = {''a'', ''b'', ''c''},
        arcs = {(''start'', ''a''), (''c'', ''end''), (''a'', ''p_0''), (''p_0'', ''b''),
              (''b'', ''p_1''), (''p_1'', ''c'')}\<rparr> \<and>
   {''start'', ''end'', ''p_0'', ''p_1''} \<inter> {''a'', ''b'', ''c''} = ({} :: string set) \<and>
   bipartite
     \<lparr>places = {''start'', ''end'', ''p_0'', ''p_1''}, transitions = {''a'', ''b'', ''c''},
        arcs = {(''start'', ''a''), (''c'', ''end''), (''a'', ''p_0''), (''p_0'', ''b''),
              (''b'', ''p_1''), (''p_1'', ''c'')}\<rparr>"
proof -
  let ?net = "\<lparr>places = {''start'', ''end'', ''p_0'', ''p_1''}, transitions = {''a'', ''b'', ''c''},
        arcs = {(''start'', ''a''), (''c'', ''end''), (''a'', ''p_0''), (''p_0'', ''b''),
              (''b'', ''p_1''), (''p_1'', ''c'')}\<rparr>"
  have d: "{''start'', ''end'', ''p_0'', ''p_1''} \<inter> {''a'', ''b'', ''c''} = ({} :: string set)"
    by simp
  then have d': "places ?net \<inter> transitions ?net = {}" by simp
  from discover_bipartite [OF abc_acts abc_walk_X abc_walk_Y abc_net d']
  have "bipartite ?net" by (rule conjunct1)
  with abc_acts abc_walk_X abc_walk_Y abc_net d show ?thesis by (intro conjI)
qed

theorem bipartite_counterexample:
  "discover (run_order [''start''] []) (init (run_order [''start''] []) [[''start'']]) =
     Inr \<lparr>places = {''start'', ''end''}, transitions = {''start''},
          arcs = {(''start'', ''start''), (''start'', ''end'')}\<rparr> \<and>
   \<not> bipartite \<lparr>places = {''start'', ''end''}, transitions = {''start''},
          arcs = {(''start'', ''start''), (''start'', ''end'')}\<rparr>"
  by code_simp

section \<open>The size of the enumeration, and errors\<close>





lemma discover_returns:
  assumes "[] \<notin> set log"
    and "walks_all it (set (concat log))"
    and "walks (walk_pairs it) (spec_X (footprint_matrix (init it log)) (set (concat log)))"
    and "walks (walk_pairs it) (spec_Y (spec_X (footprint_matrix (init it log)) (set (concat log))))"
  shows "discover it (init it log) =
     Inr \<lparr>places = insert ''end'' (insert ''start'' (place_name `
             {..<card (spec_Y (spec_X (footprint_matrix (init it log)) (set (concat log))))})),
          transitions = set (concat log),
          arcs = (\<lambda>t. (''start'', t)) ` hd ` set log \<union> (\<lambda>t. (t, ''end'')) ` last ` set log \<union>
                 (\<Union>i<card (spec_Y (spec_X (footprint_matrix (init it log)) (set (concat log)))).
                    pair_arcs i (walk_pairs it
                      (spec_Y (spec_X (footprint_matrix (init it log)) (set (concat log)))) ! i))\<rparr>"
proof -
  from assms(3) have "set (walk_pairs it (spec_X (build_footprint_matrix it log) (set (concat log))))
      = spec_X (build_footprint_matrix it log) (set (concat log))"
    by (simp add: walks_def footprint_matrix_init)
  from discover_net [OF assms(1,2) this assms(4) [unfolded footprint_matrix_init]]
  show ?thesis by (simp only: footprint_matrix_init)
qed




lemma spec_X_empty: "spec_X fm {} = {}"
  by (auto simp: spec_X_def)

lemma spec_Y_empty: "spec_Y {} = {}"
  by (auto simp: spec_Y_def)

text \<open>
  C6 (amended). The core has no InvalidInputError and validates nothing. If the run visits
  each element exactly once when it iterates a set of activities of the log, the set X and
  the set Y, then: \<open>discover\<close> raises an exception exactly when the log has a trace of zero
  length, and the exception is IndexError; the constructor has by then built the footprint
  matrix, which has an entry for every pair of activities of the log; on the empty log
  \<open>discover\<close> returns the net with the places start and end, no transition and no arc. A
  blank activity token is an activity like any other.
\<close>

theorem discover_raises_only_IndexError:
  fixes it log
  defines "T \<equiv> set (concat log)"
  defines "X \<equiv> spec_X (footprint_matrix (init it log)) T"
  defines "Y \<equiv> spec_Y X"
  assumes "walks_all it T"
    and "walks (walk_pairs it) X"
    and "walks (walk_pairs it) Y"
  shows "(\<forall>e. discover it (init it log) = Inl e \<longleftrightarrow> e = IndexError \<and> [] \<in> set log) \<and>
         (\<forall>a\<in>T. \<forall>b\<in>T. \<exists>r. fm_get (footprint_matrix (init it log)) a b = Inr r) \<and>
         (log = [] \<longrightarrow> discover it (init it log) =
            Inr \<lparr>places = {''start'', ''end''}, transitions = {}, arcs = {}\<rparr>)"
proof (intro conjI)
  note ret = discover_returns [OF _ assms(4) [unfolded T_def] assms(5) [unfolded X_def T_def]
       assms(6) [unfolded Y_def X_def T_def]]
  show "\<forall>e. discover it (init it log) = Inl e \<longleftrightarrow> e = IndexError \<and> [] \<in> set log"
  proof (cases "[] \<in> set log")
    case True
    then show ?thesis by (auto simp: discover_empty_trace)
  next
    case False
    from ret [OF this] False show ?thesis by simp
  qed
  from assms(4) have "set (walk_acts it (set (concat log))) = set (concat log)"
    by (simp add: walks_def walks_all_def T_def)
  from footprint_total [OF this]
  show "\<forall>a\<in>T. \<forall>b\<in>T. \<exists>r. fm_get (footprint_matrix (init it log)) a b = Inr r"
    by (simp only: T_def footprint_matrix_init)
  show "log = [] \<longrightarrow> discover it (init it log) =
            Inr \<lparr>places = {''start'', ''end''}, transitions = {}, arcs = {}\<rparr>"
  proof
    assume e: "log = []"
    then have "[] \<notin> set log" by simp
    from ret [OF this] show "discover it (init it log) =
            Inr \<lparr>places = {''start'', ''end''}, transitions = {}, arcs = {}\<rparr>"
      by (simp add: e spec_X_empty spec_Y_empty insert_commute)
  qed
qed

theorem discover_raises_only_IndexError_witness:
  "walks_all (run_order [] []) (set (concat [[]])) \<and>
   walks (walk_pairs (run_order [] []))
     (spec_X (footprint_matrix (init (run_order [] []) [[]])) (set (concat [[]]))) \<and>
   walks (walk_pairs (run_order [] []))
     (spec_Y (spec_X (footprint_matrix (init (run_order [] []) [[]])) (set (concat [[]])))) \<and>
   discover (run_order [] []) (init (run_order [] []) [[]]) = Inl IndexError \<and>
   walks_all (run_order [] []) (set (concat [])) \<and>
   walks (walk_pairs (run_order [] []))
     (spec_X (footprint_matrix (init (run_order [] []) [])) (set (concat []))) \<and>
   walks (walk_pairs (run_order [] []))
     (spec_Y (spec_X (footprint_matrix (init (run_order [] []) [])) (set (concat [])))) \<and>
   discover (run_order [] []) (init (run_order [] []) []) =
     Inr \<lparr>places = {''start'', ''end''}, transitions = {}, arcs = {}\<rparr>"
proof -
  let ?it = "run_order [] []"
  have a1: "walks_all ?it (set (concat [[]]))"
    by (simp add: walks_def walks_all_def run_order_def walk_in_order_def)
  have x1: "walks (walk_pairs ?it) (spec_X (footprint_matrix (init ?it [[]])) (set (concat [[]])))"
    by (simp add: spec_X_empty walks_def run_order_def walk_in_order_def)
  have y1: "walks (walk_pairs ?it)
     (spec_Y (spec_X (footprint_matrix (init ?it [[]])) (set (concat [[]]))))"
    by (simp add: spec_X_empty spec_Y_empty walks_def run_order_def walk_in_order_def)
  have a2: "walks_all ?it (set (concat []))"
    by (simp add: walks_def walks_all_def run_order_def walk_in_order_def)
  have x2: "walks (walk_pairs ?it) (spec_X (footprint_matrix (init ?it [])) (set (concat [])))"
    by (simp add: spec_X_empty walks_def run_order_def walk_in_order_def)
  have y2: "walks (walk_pairs ?it)
     (spec_Y (spec_X (footprint_matrix (init ?it [])) (set (concat []))))"
    by (simp add: spec_X_empty spec_Y_empty walks_def run_order_def walk_in_order_def)
  from discover_raises_only_IndexError [OF a1 x1 y1]
  have 1: "discover ?it (init ?it [[]]) = Inl IndexError" by simp
  from discover_raises_only_IndexError [OF a2 x2 y2]
  have 2: "discover ?it (init ?it []) =
     Inr \<lparr>places = {''start'', ''end''}, transitions = {}, arcs = {}\<rparr>" by simp
  from a1 x1 y1 1 a2 x2 y2 2 show ?thesis by (intro conjI)
qed

theorem invalid_input_counterexample:
  "discover (run_order [] []) (init (run_order [] []) []) =
     Inr \<lparr>places = {''start'', ''end''}, transitions = {}, arcs = {}\<rparr> \<and>
   discover (run_order [''''] []) (init (run_order [''''] []) [['''']]) =
     Inr \<lparr>places = {''start'', ''end''}, transitions = {''''},
          arcs = {(''start'', ''''), ('''', ''end'')}\<rparr>"
  by code_simp

section \<open>Two runs on the same log\<close>

lemma spec_X_run:
  assumes "walks_all it1 (set (concat log))"
    and "walks_all it2 (set (concat log))"
  shows "spec_X (footprint_matrix (init it2 log)) (set (concat log)) =
         spec_X (footprint_matrix (init it1 log)) (set (concat log))"
proof -
  from assms have "set (walk_acts it1 (set (concat log))) = set (concat log)"
    and "set (walk_acts it2 (set (concat log))) = set (concat log)"
    by (simp_all add: walks_def walks_all_def)
  from build_footprint_matrix_run [OF this] show ?thesis
    by (simp only: footprint_matrix_init)
qed

lemma reindex_positions:
  assumes d1: "distinct ys1" and d2: "distinct ys2" and s: "set ys1 = set ys2"
  shows "\<exists>\<pi>. bij_betw \<pi> {..<length ys1} {..<length ys1} \<and>
              (\<forall>i<length ys1. ys2 ! \<pi> i = ys1 ! i) \<and>
              (\<Union>i<length ys1. f i (ys2 ! i)) = (\<Union>i<length ys1. f (\<pi> i) (ys1 ! i))"
proof -
  let ?n = "length ys1"
  have len: "length ys2 = ?n"
    using distinct_card [OF d1] distinct_card [OF d2] s by simp
  have b1: "bij_betw ((!) ys1) {..<?n} (set ys1)"
    by (rule bij_betw_nth [OF d1]) simp_all
  have b2: "bij_betw ((!) ys2) {..<?n} (set ys1)"
    by (rule bij_betw_nth [OF d2]) (simp_all add: len s)
  let ?g = "the_inv_into {..<?n} ((!) ys2)"
  let ?p = "?g \<circ> (!) ys1"
  have bg: "bij_betw ?g (set ys1) {..<?n}"
    by (rule bij_betw_the_inv_into [OF b2])
  have bp: "bij_betw ?p {..<?n} {..<?n}"
    by (rule bij_betw_trans [OF b1 bg])
  have pos: "ys2 ! ?p i = ys1 ! i" if "i < ?n" for i
  proof -
    from that have "ys1 ! i \<in> set ys1" by simp
    with b2 have "ys2 ! ?g (ys1 ! i) = ys1 ! i"
      by (intro f_the_inv_into_f_bij_betw)
    then show ?thesis by simp
  qed
  have img: "?p ` {..<?n} = {..<?n}"
    using bp by (rule bij_betw_imp_surj_on)
  have "(\<Union>i<?n. f i (ys2 ! i)) = (\<Union>j\<in>?p ` {..<?n}. f j (ys2 ! j))"
    by (simp only: img)
  also have "\<dots> = (\<Union>i<?n. f (?p i) (ys2 ! ?p i))"
    by (simp only: image_image)
  also have "\<dots> = (\<Union>i<?n. f (?p i) (ys1 ! i))"
    using pos by (intro SUP_cong) simp_all
  finally have un: "(\<Union>i<?n. f i (ys2 ! i)) = (\<Union>i<?n. f (?p i) (ys1 ! i))" .
  from bp pos un show ?thesis
    by (intro exI [of _ ?p] conjI allI impI)
qed

text \<open>
  C7 (amended). Take two runs of \<open>discover\<close> on the same log without empty trace, each
  visiting every element exactly once when it iterates a set of activities of the log, the
  set X and the set Y. Both return a net; the two nets have the same places and the same
  transitions; the arcs of each are the same boundary arcs together with, for every i below
  the number of maximal pairs, the arcs between the place \<open>p_i\<close> and the pair that comes
  i-th when that run iterates Y. The name of a non-boundary place is thus given by the
  position of its pair in the iteration order of Y. The positions of the two runs correspond
  through a permutation \<open>\<pi>\<close> of the indices: the pair at position i in the first run is at
  position \<open>\<pi> i\<close> in the second, and the arcs of the second net are the boundary arcs
  together with, for every i, the arcs between the place \<open>p_(\<pi> i)\<close> and the pair that
  the first run gives to \<open>p_i\<close>. Two runs that iterate Y in the same order return the
  same net.
\<close>

theorem discover_two_runs:
  fixes it1 it2 log
  defines "T \<equiv> set (concat log)"
  defines "X \<equiv> spec_X (footprint_matrix (init it1 log)) T"
  defines "Y \<equiv> spec_Y X"
  defines "boundary \<equiv> (\<lambda>t. (''start'', t)) ` hd ` set log \<union> (\<lambda>t. (t, ''end'')) ` last ` set log"
  assumes "[] \<notin> set log"
    and "walks_all it1 T" and "walks_all it2 T"
    and "walks (walk_pairs it1) X" and "walks (walk_pairs it2) X"
    and "walks (walk_pairs it1) Y" and "walks (walk_pairs it2) Y"
  shows "\<exists>net1 net2.
           discover it1 (init it1 log) = Inr net1 \<and> discover it2 (init it2 log) = Inr net2 \<and>
           places net1 = places net2 \<and> transitions net1 = transitions net2 \<and>
           arcs net1 = boundary \<union> (\<Union>i<card Y. pair_arcs i (walk_pairs it1 Y ! i)) \<and>
           arcs net2 = boundary \<union> (\<Union>i<card Y. pair_arcs i (walk_pairs it2 Y ! i)) \<and>
           set (walk_pairs it1 Y) = set (walk_pairs it2 Y) \<and>
           (\<exists>\<pi>. bij_betw \<pi> {..<card Y} {..<card Y} \<and>
                (\<forall>i<card Y. walk_pairs it2 Y ! \<pi> i = walk_pairs it1 Y ! i) \<and>
                arcs net2 = boundary \<union> (\<Union>i<card Y. pair_arcs (\<pi> i) (walk_pairs it1 Y ! i))) \<and>
           (walk_pairs it1 Y = walk_pairs it2 Y \<longrightarrow> net1 = net2)"
proof -
  have X2: "spec_X (footprint_matrix (init it2 log)) (set (concat log)) = X"
    unfolding X_def T_def by (rule spec_X_run [OF assms(6,7) [unfolded T_def]])
  have 1: "discover it1 (init it1 log) =
     Inr \<lparr>places = insert ''end'' (insert ''start'' (place_name ` {..<card Y})),
          transitions = T,
          arcs = boundary \<union> (\<Union>i<card Y. pair_arcs i (walk_pairs it1 Y ! i))\<rparr>"
    unfolding Y_def X_def T_def boundary_def
    by (rule discover_returns [OF assms(5) assms(6) [unfolded T_def] assms(8) [unfolded X_def T_def]
          assms(10) [unfolded Y_def X_def T_def]])
  have 2: "discover it2 (init it2 log) =
     Inr \<lparr>places = insert ''end'' (insert ''start'' (place_name ` {..<card Y})),
          transitions = T,
          arcs = boundary \<union> (\<Union>i<card Y. pair_arcs i (walk_pairs it2 Y ! i))\<rparr>"
    using discover_returns [OF assms(5) assms(7) [unfolded T_def],
      unfolded X2, OF assms(9) assms(11) [unfolded Y_def]]
    by (simp only: Y_def [symmetric] T_def [symmetric] boundary_def [symmetric])
  have 3: "set (walk_pairs it1 Y) = set (walk_pairs it2 Y)"
    using assms(10,11) by (simp add: walks_def)
  from assms(10,11) have d1: "distinct (walk_pairs it1 Y)" and d2: "distinct (walk_pairs it2 Y)"
    and s1: "set (walk_pairs it1 Y) = Y"
    by (simp_all add: walks_def)
  have cY: "length (walk_pairs it1 Y) = card Y"
    using distinct_card [OF d1] by (simp only: s1)
  from reindex_positions [OF d1 d2 3, of pair_arcs, unfolded cY] obtain \<pi> where
    p: "bij_betw \<pi> {..<card Y} {..<card Y}"
       "\<forall>i<card Y. walk_pairs it2 Y ! \<pi> i = walk_pairs it1 Y ! i"
       "(\<Union>i<card Y. pair_arcs i (walk_pairs it2 Y ! i)) =
        (\<Union>i<card Y. pair_arcs (\<pi> i) (walk_pairs it1 Y ! i))"
    by (elim exE conjE) (rule that, assumption+)
  have 4: "\<exists>\<pi>. bij_betw \<pi> {..<card Y} {..<card Y} \<and>
                (\<forall>i<card Y. walk_pairs it2 Y ! \<pi> i = walk_pairs it1 Y ! i) \<and>
                boundary \<union> (\<Union>i<card Y. pair_arcs i (walk_pairs it2 Y ! i)) =
                boundary \<union> (\<Union>i<card Y. pair_arcs (\<pi> i) (walk_pairs it1 Y ! i))"
    by (intro exI [of _ \<pi>] conjI p(1) p(2)) (simp only: p(3))
  let ?net1 = "\<lparr>places = insert ''end'' (insert ''start'' (place_name ` {..<card Y})),
          transitions = T,
          arcs = boundary \<union> (\<Union>i<card Y. pair_arcs i (walk_pairs it1 Y ! i))\<rparr>"
  let ?net2 = "\<lparr>places = insert ''end'' (insert ''start'' (place_name ` {..<card Y})),
          transitions = T,
          arcs = boundary \<union> (\<Union>i<card Y. pair_arcs i (walk_pairs it2 Y ! i))\<rparr>"
  from 4 have 5: "\<exists>\<pi>. bij_betw \<pi> {..<card Y} {..<card Y} \<and>
                (\<forall>i<card Y. walk_pairs it2 Y ! \<pi> i = walk_pairs it1 Y ! i) \<and>
                arcs ?net2 = boundary \<union> (\<Union>i<card Y. pair_arcs (\<pi> i) (walk_pairs it1 Y ! i))"
    by (simp only: PetriNet.simps)
  have 6: "places ?net1 = places ?net2" "transitions ?net1 = transitions ?net2"
    "arcs ?net1 = boundary \<union> (\<Union>i<card Y. pair_arcs i (walk_pairs it1 Y ! i))"
    "arcs ?net2 = boundary \<union> (\<Union>i<card Y. pair_arcs i (walk_pairs it2 Y ! i))"
    "walk_pairs it1 Y = walk_pairs it2 Y \<longrightarrow> ?net1 = ?net2"
    by simp_all
  show ?thesis
    by (rule exI [of _ ?net1], rule exI [of _ ?net2]) (intro conjI 1 2 3 5 6)
qed

theorem discover_two_runs_witness:
  "[] \<notin> set log_abc \<and>
   walks_all run_abc (set (concat log_abc)) \<and>
   walks_all (run_order [''c'', ''b'', ''a''] [({''a''}, {''b''}), ({''b''}, {''c''})])
     (set (concat log_abc)) \<and>
   walks (walk_pairs run_abc)
     (spec_X (footprint_matrix (init run_abc log_abc)) (set (concat log_abc))) \<and>
   walks (walk_pairs (run_order [''c'', ''b'', ''a''] [({''a''}, {''b''}), ({''b''}, {''c''})]))
     (spec_X (footprint_matrix (init run_abc log_abc)) (set (concat log_abc))) \<and>
   walks (walk_pairs run_abc)
     (spec_Y (spec_X (footprint_matrix (init run_abc log_abc)) (set (concat log_abc)))) \<and>
   walks (walk_pairs (run_order [''c'', ''b'', ''a''] [({''a''}, {''b''}), ({''b''}, {''c''})]))
     (spec_Y (spec_X (footprint_matrix (init run_abc log_abc)) (set (concat log_abc)))) \<and>
   walk_pairs run_abc
     (spec_Y (spec_X (footprint_matrix (init run_abc log_abc)) (set (concat log_abc)))) =
   walk_pairs (run_order [''c'', ''b'', ''a''] [({''a''}, {''b''}), ({''b''}, {''c''})])
     (spec_Y (spec_X (footprint_matrix (init run_abc log_abc)) (set (concat log_abc)))) \<and>
   discover run_abc (init run_abc log_abc) =
   discover (run_order [''c'', ''b'', ''a''] [({''a''}, {''b''}), ({''b''}, {''c''})])
     (init (run_order [''c'', ''b'', ''a''] [({''a''}, {''b''}), ({''b''}, {''c''})]) log_abc)"
proof -
  let ?it = "run_order [''c'', ''b'', ''a''] [({''a''}, {''b''}), ({''b''}, {''c''})]"
  let ?X = "spec_X (footprint_matrix (init run_abc log_abc)) (set (concat log_abc))"
  have a2: "walks_all ?it (set (concat log_abc))"
    unfolding log_abc_def walks_all_def by (auto intro!: walks_run_order)
  have w: "walks (walk_pairs ?it) {({''a''}, {''b''}), ({''b''}, {''c''})}"
    by code_simp
  have x2: "walks (walk_pairs ?it) ?X"
    by (simp only: abc_X' w)
  have y2: "walks (walk_pairs ?it) (spec_Y ?X)"
    by (simp only: abc_X' abc_Y w)
  have e: "walk_pairs run_abc (spec_Y ?X) = walk_pairs ?it (spec_Y ?X)"
    unfolding abc_X' abc_Y by code_simp
  from discover_two_runs [OF abc_nonempty abc_acts a2 abc_walk_X x2 abc_walk_Y y2] e
  have "discover run_abc (init run_abc log_abc) = discover ?it (init ?it log_abc)"
    by (elim exE conjE) simp
  with abc_nonempty abc_acts a2 abc_walk_X x2 abc_walk_Y y2 e show ?thesis
    by (intro conjI)
qed

theorem place_identity_counterexample:
  "discover run_abc (init run_abc log_abc) =
     Inr \<lparr>places = {''start'', ''end'', ''p_0'', ''p_1''}, transitions = {''a'', ''b'', ''c''},
        arcs = {(''start'', ''a''), (''c'', ''end''), (''a'', ''p_0''), (''p_0'', ''b''),
              (''b'', ''p_1''), (''p_1'', ''c'')}\<rparr> \<and>
   discover run_cba (init run_cba log_abc) =
     Inr \<lparr>places = {''start'', ''end'', ''p_0'', ''p_1''}, transitions = {''a'', ''b'', ''c''},
        arcs = {(''start'', ''a''), (''c'', ''end''), (''a'', ''p_1''), (''p_1'', ''b''),
              (''b'', ''p_0''), (''p_0'', ''c'')}\<rparr> \<and>
   (''a'', ''p_0'') \<notin> {(''start'', ''a''), (''c'', ''end''), (''a'', ''p_1''), (''p_1'', ''b''),
              (''b'', ''p_0''), (''p_0'', ''c'')} \<and>
   walks (walk_pairs run_abc) {({''a''}, {''b''}), ({''b''}, {''c''})} \<and>
   walks (walk_pairs run_cba) {({''a''}, {''b''}), ({''b''}, {''c''})} \<and>
   walk_pairs run_abc {({''a''}, {''b''}), ({''b''}, {''c''})} = [({''a''}, {''b''}), ({''b''}, {''c''})] \<and>
   walk_pairs run_cba {({''a''}, {''b''}), ({''b''}, {''c''})} = [({''b''}, {''c''}), ({''a''}, {''b''})]"
  by code_simp

end
